theory Spec2Isabelle
  imports Main "HOL-Library.Word"
begin

unbundle bit_operations_syntax

section \<open>Bytes, slices, strings and run-time faults\<close>

text \<open>
  The development embeds \<^verbatim>\<open>cmd/kaf/consume.go\<close>. Go's \<^verbatim>\<open>byte\<close> is an
  unsigned 8-bit integer whose arithmetic wraps, \<^verbatim>\<open>int64\<close> a 64-bit two's complement
  integer. A Go \<^verbatim>\<open>string\<close> is a byte sequence, held here as a \<^typ>\<open>string\<close>.
\<close>

type_synonym byte = "8 word"
type_synonym int32 = "32 word"
type_synonym int64 = "64 word"
type_synonym uint64 = "64 word"

text \<open>
  A byte slice has a length and a capacity: \<open>elems\<close> are the bytes below the length,
  \<open>spare\<close> the bytes of the backing array between length and capacity. Indexing
  \<^verbatim>\<open>s[i]\<close> is checked against the length, slicing \<^verbatim>\<open>s[lo:hi]\<close> against the capacity.
\<close>

record gslice =
  elems :: "byte list"
  spare :: "byte list"

text \<open>The run-time panics of Go that the embedded code can raise.\<close>

datatype panic =
    IndexOutOfRange nat nat
  | SliceBoundsOutOfRange nat nat nat
  | NilDereference

definition len :: "gslice \<Rightarrow> nat" where
  "len s = length (elems s)"

definition cap :: "gslice \<Rightarrow> nat" where
  "cap s = length (elems s) + length (spare s)"

definition index :: "gslice \<Rightarrow> nat \<Rightarrow> panic + byte" where
  "index s i = (if i < len s then Inr (elems s ! i) else Inl (IndexOutOfRange i (len s)))"

definition slice :: "gslice \<Rightarrow> nat \<Rightarrow> nat \<Rightarrow> panic + byte list" where
  "slice s lo hi =
     (if cap s < hi \<or> hi < lo then Inl (SliceBoundsOutOfRange lo hi (cap s))
      else Inr (take (hi - lo) (drop lo (elems s @ spare s))))"

definition string_of_bytes :: "byte list \<Rightarrow> string" where
  "string_of_bytes bs = map (\<lambda>b. char_of (unat b)) bs"

section \<open>Library functions used by the header decoder\<close>

text \<open>
  \<^verbatim>\<open>binary.BigEndian.Uint64(b)\<close>:
  \<^verbatim>\<open>uint64(b[7]) | uint64(b[6])<<8 | ... | uint64(b[0])<<56\<close>, on a slice of at least
  eight bytes. The decoder only calls it on an eight-byte slice.
\<close>

definition BigEndian_Uint64 :: "byte list \<Rightarrow> uint64" where
  "BigEndian_Uint64 b =
     ucast (b ! 7) OR push_bit 8 (ucast (b ! 6)) OR push_bit 16 (ucast (b ! 5))
       OR push_bit 24 (ucast (b ! 4)) OR push_bit 32 (ucast (b ! 3))
       OR push_bit 40 (ucast (b ! 2)) OR push_bit 48 (ucast (b ! 1))
       OR push_bit 56 (ucast (b ! 0))"

text \<open>\<^verbatim>\<open>strconv.FormatUint(v, 10)\<close>: the decimal digits of \<open>v\<close>, most significant first.\<close>

definition digit_char :: "nat \<Rightarrow> char" where
  "digit_char d = char_of (48 + d)"

fun decimal :: "nat \<Rightarrow> string" where
  "decimal n = (if n < 10 then [digit_char n] else decimal (n div 10) @ [digit_char (n mod 10)])"

declare decimal.simps [simp del]

definition FormatUint10 :: "uint64 \<Rightarrow> string" where
  "FormatUint10 v = decimal (unat v)"

section \<open>Header value decoding (consume.go, lines 149 to 160)\<close>

text \<open>
  \<^verbatim>\<open>
  var hdrValue string
  if len(hdr.Value) > 0 {
      switch hdr.Value[0] {
      case 161: hdrValue = string(hdr.Value[2 : 2+hdr.Value[1]])
      case 131: hdrValue = strconv.FormatUint(binary.BigEndian.Uint64(hdr.Value[1:9]), 10)
      default:  hdrValue = string(hdr.Value)
      }
  }
  \<close>
  The upper bound \<^verbatim>\<open>2+hdr.Value[1]\<close> has type \<^verbatim>\<open>byte\<close>: the sum is taken in 8 bits.
\<close>

definition hdrValue_of :: "gslice \<Rightarrow> panic + string" where
  "hdrValue_of v =
     (if 0 < len v then
        (if elems v ! 0 = 161 then
           (case index v 1 of
              Inl p \<Rightarrow> Inl p
            | Inr l \<Rightarrow>
                (case slice v 2 (unat (2 + l)) of
                   Inl p \<Rightarrow> Inl p
                 | Inr bs \<Rightarrow> Inr (string_of_bytes bs)))
         else if elems v ! 0 = 131 then
           (case slice v 1 9 of
              Inl p \<Rightarrow> Inl p
            | Inr bs \<Rightarrow> Inr (FormatUint10 (BigEndian_Uint64 bs)))
         else Inr (string_of_bytes (elems v)))
      else Inr [])"

text \<open>
  \<^verbatim>\<open>binary.BigEndian.PutUint64\<close>, the encoder that \<open>BigEndian_Uint64\<close> inverts: the eight
  bytes that encode the unsigned 64-bit integer \<open>v\<close>, most significant first.
\<close>

definition be_bytes :: "uint64 \<Rightarrow> byte list" where
  "be_bytes v = [ucast (drop_bit 56 v), ucast (drop_bit 48 v), ucast (drop_bit 40 v),
     ucast (drop_bit 32 v), ucast (drop_bit 24 v), ucast (drop_bit 16 v),
     ucast (drop_bit 8 v), ucast v]"

text \<open>Reading a decimal numeral back, to relate \<open>decimal\<close> to the number it renders.\<close>

definition digit_val :: "char \<Rightarrow> nat" where
  "digit_val c = of_char c - 48"

definition decimal_value :: "string \<Rightarrow> nat" where
  "decimal_value s = foldl (\<lambda>a c. 10 * a + digit_val c) 0 s"

section \<open>Errors, the offset probe and its retry loop (consume.go, lines 39 to 60)\<close>

text \<open>
  A Go \<^verbatim>\<open>error\<close> is \<^verbatim>\<open>nil\<close> or carries a message: \<open>None\<close> or \<open>Some\<close> of the text that
  \<^verbatim>\<open>%v\<close> prints. An \<^verbatim>\<open>*sarama.OffsetResponse\<close> is read only through
  \<^verbatim>\<open>GetBlock(topic, partition).Offset\<close>: it is the partial map from topic and partition to
  the offset of that block. A broker is known by what its successive
  \<^verbatim>\<open>GetAvailableOffsets\<close> calls return (the request never changes between calls).
\<close>

type_synonym error = "string option"
type_synonym OffsetResponse = "string \<times> int32 \<Rightarrow> int64 option"
type_synonym Broker = "nat \<Rightarrow> OffsetResponse option \<times> error"

text \<open>\<^verbatim>\<open>const offsetsRetry = 500 * time.Millisecond\<close>, a duration in nanoseconds.\<close>

definition offsetsRetry :: nat where
  "offsetsRetry = 500 * 1000000"

text \<open>
  \<^verbatim>\<open>
  for {
      select {
      case <-time.After(d):
          return nil, err
      default:
          offsets, err = ldr.GetAvailableOffsets(req)
          if err == nil { return offsets, err }
      }
  }
  \<close>
  Every iteration creates a new timer with \<^verbatim>\<open>time.After(d)\<close> and polls its channel at
  once: a \<^verbatim>\<open>select\<close> with a \<^verbatim>\<open>default\<close> case does not wait. The channel is ready only
  when at least \<open>d\<close> has passed between the creation of this iteration's timer and the poll;
  \<open>poll_delay i\<close> is that time in iteration \<open>i\<close>, in nanoseconds. The loop need not end, so
  it is a partial function: \<open>None\<close> is the run that never returns. The result is the pair
  the Go function returns, with the number of \<^verbatim>\<open>GetAvailableOffsets\<close> calls made.
\<close>

partial_function (option) retry_loop ::
  "(nat \<Rightarrow> nat) \<Rightarrow> Broker \<Rightarrow> nat \<Rightarrow> nat \<Rightarrow> error
     \<Rightarrow> ((OffsetResponse option \<times> error) \<times> nat) option"
where
  "retry_loop poll_delay ldr d i err =
     (if d \<le> poll_delay i then Some ((None, err), i)
      else (case ldr i of
              (offsets, None) \<Rightarrow> Some ((offsets, None), Suc i)
            | (offsets, Some e) \<Rightarrow> retry_loop poll_delay ldr d (Suc i) (Some e)))"

definition getAvailableOffsetsRetry ::
  "(nat \<Rightarrow> nat) \<Rightarrow> Broker \<Rightarrow> nat \<Rightarrow> ((OffsetResponse option \<times> error) \<times> nat) option" where
  "getAvailableOffsetsRetry poll_delay ldr d = retry_loop poll_delay ldr d 0 None"

section \<open>Rendering one message (consume.go, lines 129 to 175 and 191 to 204)\<close>

definition NL :: string where
  "NL = [CHR 0x0A]"

definition TAB :: string where
  "TAB = [CHR 0x09]"

text \<open>\<^verbatim>\<open>%v\<close> of a signed integer.\<close>

definition format_int :: "int \<Rightarrow> string" where
  "format_int i = (if i < 0 then CHR ''-'' # decimal (nat (- i)) else decimal (nat i))"

record RecordHeader =
  hdr_Key :: "byte list"
  hdr_Value :: gslice

text \<open>The timestamp is held as the text that \<^verbatim>\<open>%v\<close> prints for it.\<close>

record ConsumerMessage =
  Headers :: "RecordHeader list"
  Timestamp :: string
  Key :: "byte list"
  Value :: "byte list"
  Partition :: int32
  Offset :: int64

text \<open>
  The package variables and the library functions the loop body calls. \<open>schemaCache\<close> is
  \<^verbatim>\<open>nil\<close> or a cache, known by its \<^verbatim>\<open>DecodeMessage\<close>; \<^verbatim>\<open>prettyjson.Format\<close> and
  \<^verbatim>\<open>keyfmt.Format\<close> are functions from bytes to bytes and an error.
\<close>

record config =
  offsetFlag :: string
  raw :: bool
  follow :: bool
  schemaCache :: "(byte list \<Rightarrow> byte list \<times> error) option"
  prettyjson_Format :: "byte list \<Rightarrow> byte list \<times> error"
  keyfmt_Format :: "byte list \<Rightarrow> byte list \<times> error"

definition avroDecode :: "config \<Rightarrow> byte list \<Rightarrow> byte list \<times> error" where
  "avroDecode cfg b = (case schemaCache cfg of Some DecodeMessage \<Rightarrow> DecodeMessage b | None \<Rightarrow> (b, None))"

definition formatKey :: "config \<Rightarrow> byte list \<Rightarrow> string" where
  "formatKey cfg key =
     (case keyfmt_Format cfg key of
        (b, Some e) \<Rightarrow> string_of_bytes key
      | (b, None) \<Rightarrow> string_of_bytes b)"

text \<open>
  The buffer \<^verbatim>\<open>stderr\<close> receives text in two ways: written to it directly with
  \<^verbatim>\<open>fmt.Fprintf(&stderr, ...)\<close>, or written to the tabwriter \<open>w\<close>, which aligns the cells
  and passes them on to the buffer. The buffer is held as the sequence of these writes in
  program order; the column layout of \<^verbatim>\<open>text/tabwriter\<close> is not modelled.
\<close>

datatype chunk = Direct string | Tabbed string

definition decode_error_line :: "string \<Rightarrow> chunk" where
  "decode_error_line e = Direct (''could not decode Avro data: '' @ e @ NL)"

fun header_lines :: "RecordHeader list \<Rightarrow> panic + chunk list" where
  "header_lines [] = Inr []"
| "header_lines (hdr # hdrs) =
     (case hdrValue_of (hdr_Value hdr) of
        Inl p \<Rightarrow> Inl p
      | Inr hdrValue \<Rightarrow>
          (case header_lines hdrs of
             Inl p \<Rightarrow> Inl p
           | Inr ls \<Rightarrow>
               Inr (Tabbed (TAB @ ''Key: '' @ string_of_bytes (hdr_Key hdr) @ TAB @ ''Value: ''
                              @ hdrValue @ NL) # ls)))"

definition key_lines :: "config \<Rightarrow> byte list \<Rightarrow> chunk list" where
  "key_lines cfg k =
     (if 0 < length k then
        (case avroDecode cfg k of
           (key, err) \<Rightarrow>
             (case err of None \<Rightarrow> [] | Some e \<Rightarrow> [decode_error_line e])
               @ [Tabbed (''Key:'' @ TAB @ formatKey cfg key @ NL)])
      else [])"

definition position_lines :: "ConsumerMessage \<Rightarrow> chunk list" where
  "position_lines msg =
     [Tabbed (''Partition:'' @ TAB @ format_int (sint (Partition msg)) @ NL
              @ ''Offset:'' @ TAB @ format_int (sint (Offset msg)) @ NL
              @ ''Timestamp:'' @ TAB @ Timestamp msg @ NL)]"

text \<open>What one iteration of the message loop hands to the locked section.\<close>

record block =
  to_stderr :: "chunk list"
  to_stdout :: "byte list"

definition render_message :: "config \<Rightarrow> ConsumerMessage \<Rightarrow> panic + block" where
  "render_message cfg msg =
     (case avroDecode cfg (Value msg) of
        (dataToDisplay, err) \<Rightarrow>
          (let stderr0 = (case err of None \<Rightarrow> [] | Some e \<Rightarrow> [decode_error_line e]) in
           if raw cfg then Inr \<lparr>to_stderr = stderr0, to_stdout = dataToDisplay\<rparr>
           else
             (let shown = (case prettyjson_Format cfg dataToDisplay of
                             (formatted, None) \<Rightarrow> formatted
                           | (formatted, Some e) \<Rightarrow> dataToDisplay);
                  title = (if 0 < length (Headers msg) then [Tabbed (''Headers:'' @ NL)] else [])
              in case header_lines (Headers msg) of
                   Inl p \<Rightarrow> Inl p
                 | Inr ls \<Rightarrow>
                     Inr \<lparr>to_stderr = stderr0 @ title @ ls @ key_lines cfg (Key msg)
                                        @ position_lines msg,
                          to_stdout = shown\<rparr>)))"

section \<open>The consume command: one worker per partition (consume.go, lines 66 to 188)\<close>

text \<open>\<^verbatim>\<open>sarama.OffsetNewest\<close> is -1 and \<^verbatim>\<open>sarama.OffsetOldest\<close> is -2.\<close>

definition OffsetNewest :: int64 where
  "OffsetNewest = - 1"

definition OffsetOldest :: int64 where
  "OffsetOldest = - 2"

text \<open>The \<^verbatim>\<open>switch offsetFlag\<close> of lines 69 to 80.\<close>

definition offset_of_flag :: "string \<Rightarrow> int64" where
  "offset_of_flag f =
     (if f = ''oldest'' then OffsetOldest
      else if f = ''newest'' then OffsetNewest
      else OffsetNewest)"

text \<open>
  What the command meets outside itself: the partitions of the topic, the leader of each
  partition (or the error of the lookup), the timing of each worker's retry loop, the answer
  of \<^verbatim>\<open>ConsumePartition\<close>, and the messages that the partition consumer delivers from a
  start offset until its channel is closed.
\<close>

record world =
  topic :: string
  partitions :: "int32 list"
  Leader :: "int32 \<Rightarrow> string + Broker"
  poll_delay :: "int32 \<Rightarrow> nat \<Rightarrow> nat"
  ConsumePartition :: "int32 \<Rightarrow> int64 \<Rightarrow> error"
  Messages :: "int32 \<Rightarrow> int64 \<Rightarrow> ConsumerMessage list"

text \<open>
  Lines 112 to 116: the probe through the retry loop and the read of the block. The result
  is \<open>None\<close> when the loop never returns; otherwise the number of probes sent, and the
  message of \<^verbatim>\<open>errorExit\<close>, a panic (a \<^verbatim>\<open>nil\<close> response or a missing block is
  dereferenced), or \<^verbatim>\<open>followOffset\<close>.
\<close>

definition probe_followOffset ::
  "world \<Rightarrow> Broker \<Rightarrow> int32 \<Rightarrow> (nat \<times> (string + panic + int64)) option" where
  "probe_followOffset w ldr p =
     (case getAvailableOffsetsRetry (poll_delay w p) ldr offsetsRetry of
        None \<Rightarrow> None
      | Some ((offsets, err), n) \<Rightarrow>
          Some (n,
            (case err of
               Some e \<Rightarrow> Inl (''Unable to get available offsets: '' @ e @ NL)
             | None \<Rightarrow>
                 (case offsets of
                    None \<Rightarrow> Inr (Inl NilDereference)
                  | Some r \<Rightarrow>
                      (case r (topic w, p) of
                         None \<Rightarrow> Inr (Inl NilDereference)
                       | Some h \<Rightarrow> Inr (Inr (h - 1)))))))"

text \<open>
  The goroutines share the variable \<open>offset\<close> (declared at line 68, outside the loop over
  the partitions), the mutex \<open>mu\<close>, the network and the two output streams. Each goroutine
  is at one of these places:
  \<^item> \<open>AtLeader\<close>: before \<^verbatim>\<open>client.Leader\<close> (line 107);
  \<^item> \<open>AtProbe\<close>: before the probe (line 112);
  \<^item> \<open>AtFollow fo\<close>: before the test of line 118, with \<^verbatim>\<open>followOffset\<close> = \<open>fo\<close>;
  \<^item> \<open>AtPrint\<close>: \<open>offset\<close> is assigned (line 119), before the \<^verbatim>\<open>Fprintf\<close> of line 120;
  \<^item> \<open>AtConsume\<close>: before \<^verbatim>\<open>ConsumePartition\<close> (line 123);
  \<^item> \<open>Recv off k\<close>: consuming from \<open>off\<close>, \<open>k\<close> messages taken, before the next receive;
  \<^item> \<open>AtLock off k its\<close>: message \<open>k\<close> rendered, before \<^verbatim>\<open>mu.Lock()\<close> (line 177);
  \<^item> \<open>Writing off k its\<close>: holding the lock, \<open>its\<close> still to be written; with nothing left,
    before \<^verbatim>\<open>mu.Unlock()\<close> (line 181);
  \<^item> \<open>Finished\<close>: after \<^verbatim>\<open>wg.Done()\<close>.
\<close>

datatype item = ToStderr chunk | ToStdout byte

datatype place =
    AtLeader
  | AtProbe
  | AtFollow int64
  | AtPrint
  | AtConsume
  | Recv int64 nat
  | AtLock int64 nat "item list"
  | Writing int64 nat "item list"
  | Finished

datatype event = LeaderLookup int32 | OffsetProbe int32 nat | ConsumeCall int32 int64

text \<open>Who wrote an item: message \<open>k\<close> of a partition's worker, or its start-up line.\<close>

datatype origin = Rec int32 nat | Startup int32

datatype outcome = Running | Exited string | Panicked panic

record sys =
  offset :: int64
  mu :: "int32 option"
  places :: "int32 \<Rightarrow> place"
  net :: "event list"
  out :: "(origin \<times> item) list"
  outcome :: outcome

text \<open>
  Lines 178 to 180 write the buffer to \<^verbatim>\<open>os.Stderr\<close>, then the payload and a newline to
  standard output.
\<close>

definition block_items :: "block \<Rightarrow> item list" where
  "block_items b = map ToStderr (to_stderr b) @ map ToStdout (to_stdout b) @ [ToStdout 10]"

definition starting_line :: "int32 \<Rightarrow> int64 \<Rightarrow> chunk" where
  "starting_line p off =
     Direct (''Starting on partition '' @ format_int (sint p) @ '' with offset ''
             @ format_int (sint off) @ NL)"

definition move :: "int32 \<Rightarrow> place \<Rightarrow> sys \<Rightarrow> sys" where
  "move p pl s = s\<lparr>places := (places s)(p := pl)\<rparr>"

text \<open>
  One step of the worker of partition \<open>p\<close>. After \<^verbatim>\<open>errorExit\<close> or a panic the process is
  gone and nothing moves; a worker whose probe never returns, or that waits for the lock,
  stays where it is.
\<close>

definition step :: "config \<Rightarrow> world \<Rightarrow> int32 \<Rightarrow> sys \<Rightarrow> sys" where
  "step cfg w p s =
     (if outcome s = Running \<and> p \<in> set (partitions w) then
        (case places s p of
           AtLeader \<Rightarrow>
             (case Leader w p of
                Inl e \<Rightarrow> s\<lparr>net := net s @ [LeaderLookup p],
                            outcome := Exited (''Unable to get leader: '' @ e @ NL)\<rparr>
              | Inr ldr \<Rightarrow> move p AtProbe (s\<lparr>net := net s @ [LeaderLookup p]\<rparr>))
         | AtProbe \<Rightarrow>
             (case Leader w p of
                Inl e \<Rightarrow> s
              | Inr ldr \<Rightarrow>
                  (case probe_followOffset w ldr p of
                     None \<Rightarrow> s
                   | Some (n, Inl msg) \<Rightarrow>
                       s\<lparr>net := net s @ [OffsetProbe p n], outcome := Exited msg\<rparr>
                   | Some (n, Inr (Inl pn)) \<Rightarrow>
                       s\<lparr>net := net s @ [OffsetProbe p n], outcome := Panicked pn\<rparr>
                   | Some (n, Inr (Inr fo)) \<Rightarrow>
                       move p (AtFollow fo) (s\<lparr>net := net s @ [OffsetProbe p n]\<rparr>)))
         | AtFollow fo \<Rightarrow>
             (if follow cfg \<and> 0 <s fo then move p AtPrint (s\<lparr>offset := fo\<rparr>)
              else move p AtConsume s)
         | AtPrint \<Rightarrow>
             move p AtConsume
               (s\<lparr>out := out s @ [(Startup p, ToStderr (starting_line p (offset s)))]\<rparr>)
         | AtConsume \<Rightarrow>
             (case ConsumePartition w p (offset s) of
                Some e \<Rightarrow> s\<lparr>net := net s @ [ConsumeCall p (offset s)],
                             outcome := Exited (''Unable to consume partition: '' @ e @ NL)\<rparr>
              | None \<Rightarrow> move p (Recv (offset s) 0)
                          (s\<lparr>net := net s @ [ConsumeCall p (offset s)]\<rparr>))
         | Recv off k \<Rightarrow>
             (if k < length (Messages w p off) then
                (case render_message cfg (Messages w p off ! k) of
                   Inl pn \<Rightarrow> s\<lparr>outcome := Panicked pn\<rparr>
                 | Inr b \<Rightarrow> move p (AtLock off k (block_items b)) s)
              else move p Finished s)
         | AtLock off k its \<Rightarrow>
             (if mu s = None then move p (Writing off k its) (s\<lparr>mu := Some p\<rparr>) else s)
         | Writing off k its \<Rightarrow>
             (case its of
                [] \<Rightarrow> move p (Recv off (Suc k)) (s\<lparr>mu := None\<rparr>)
              | it # rest \<Rightarrow> move p (Writing off k rest) (s\<lparr>out := out s @ [(Rec p k, it)]\<rparr>))
         | Finished \<Rightarrow> s)
      else s)"

definition init :: "config \<Rightarrow> sys" where
  "init cfg =
     \<lparr>offset = offset_of_flag (offsetFlag cfg), mu = None, places = (\<lambda>p. AtLeader), net = [],
      out = [], outcome = Running\<rparr>"

text \<open>A schedule names, step by step, the worker that moves next.\<close>

definition run :: "config \<Rightarrow> world \<Rightarrow> int32 list \<Rightarrow> sys \<Rightarrow> sys" where
  "run cfg w sched s = foldl (\<lambda>s p. step cfg w p s) s sched"

text \<open>The origins of the items that belong to messages, in the order written.\<close>

fun is_rec :: "origin \<Rightarrow> bool" where
  "is_rec (Rec p k) = True"
| "is_rec (Startup p) = False"

definition rec_tags :: "sys \<Rightarrow> origin list" where
  "rec_tags s = filter is_rec (map fst (out s))"

text \<open>
  The bytes that lines 131 to 140 leave in \<^verbatim>\<open>dataToDisplay\<close>, given the bytes \<open>d\<close> that
  \<^verbatim>\<open>avroDecode\<close> returned: reformatted when raw output is off and the formatter accepts them.
\<close>

definition shown_bytes :: "config \<Rightarrow> byte list \<Rightarrow> byte list" where
  "shown_bytes cfg d =
     (if raw cfg then d
      else (case prettyjson_Format cfg d of (formatted, None) \<Rightarrow> formatted | (formatted, Some e) \<Rightarrow> d))"

section \<open>Properties of the states a run can reach\<close>

text \<open>The places after the probe of line 112.\<close>

fun probed_place :: "place \<Rightarrow> bool" where
  "probed_place AtLeader = False"
| "probed_place AtProbe = False"
| "probed_place pl = True"

text \<open>Every \<^verbatim>\<open>ConsumePartition\<close> call comes after a probe for the same partition.\<close>

definition probes_precede :: "event list \<Rightarrow> bool" where
  "probes_precede es =
     (\<forall>pre post p off. es = pre @ ConsumeCall p off # post \<longrightarrow> (\<exists>n. OffsetProbe p n \<in> set pre))"

definition probed_inv :: "sys \<Rightarrow> bool" where
  "probed_inv s =
     ((\<forall>p. probed_place (places s p) \<longrightarrow> (\<exists>n. OffsetProbe p n \<in> set (net s)))
      \<and> probes_precede (net s))"

text \<open>
  The high watermark that the probe of partition \<open>p\<close> reads: the offset of the block in the
  response, when the leader is found, the retry loop returns without error and the response
  has the block.
\<close>

definition probed_H :: "world \<Rightarrow> int32 \<Rightarrow> int64 option" where
  "probed_H w p =
     (case Leader w p of
        Inl e \<Rightarrow> None
      | Inr ldr \<Rightarrow>
          (case getAvailableOffsetsRetry (poll_delay w p) ldr offsetsRetry of
             None \<Rightarrow> None
           | Some ((offsets, err), n) \<Rightarrow>
               (case err of
                  Some e \<Rightarrow> None
                | None \<Rightarrow> (case offsets of None \<Rightarrow> None | Some r \<Rightarrow> r (topic w, p)))))"

text \<open>The shared \<open>offset\<close> still holds what the offset flag selected.\<close>

definition flag_offset_inv :: "config \<Rightarrow> world \<Rightarrow> sys \<Rightarrow> bool" where
  "flag_offset_inv cfg w s =
     (offset s = offset_of_flag (offsetFlag cfg)
      \<and> (\<forall>p off. ConsumeCall p off \<in> set (net s) \<longrightarrow> off = offset_of_flag (offsetFlag cfg))
      \<and> (\<forall>p fo. p \<in> set (partitions w) \<and> places s p = AtFollow fo \<longrightarrow>
             (\<exists>h. probed_H w p = Some h \<and> fo = h - 1)))"

text \<open>
  A list in which equal elements are neighbours: once another element has followed \<open>a\<close>,
  \<open>a\<close> does not come again.
\<close>

definition contiguous :: "'a list \<Rightarrow> bool" where
  "contiguous xs = (\<forall>pre a mid b post. xs = pre @ a # mid @ b # post \<and> a \<noteq> b \<longrightarrow> a \<notin> set post)"

text \<open>
  Which items of message \<open>k\<close> of worker \<open>q\<close> can have been written, given where \<open>q\<close> is:
  those of earlier messages, and those of the message it is writing, which are then the
  latest items written.
\<close>

fun may_have :: "place \<Rightarrow> origin list \<Rightarrow> int32 \<Rightarrow> nat \<Rightarrow> bool" where
  "may_have (Recv off k') tags q k = (k < k')"
| "may_have (AtLock off k' its) tags q k = (k < k')"
| "may_have (Writing off k' its) tags q k = (k < k' \<or> (k = k' \<and> tags \<noteq> [] \<and> last tags = Rec q k))"
| "may_have Finished tags q k = True"
| "may_have pl tags q k = False"

text \<open>Only the holder of the mutex is between \<^verbatim>\<open>mu.Lock()\<close> and \<^verbatim>\<open>mu.Unlock()\<close>.\<close>

definition lock_inv :: "sys \<Rightarrow> bool" where
  "lock_inv s = (\<forall>q off k its. places s q = Writing off k its \<longrightarrow> mu s = Some q)"

definition block_inv :: "sys \<Rightarrow> bool" where
  "block_inv s =
     (contiguous (rec_tags s) \<and> lock_inv s
      \<and> (\<forall>q k. Rec q k \<in> set (rec_tags s) \<longrightarrow> may_have (places s q) (rec_tags s) q k))"

section \<open>Concrete configurations and messages\<close>

text \<open>
  A schema cache whose decoding fails and hands its input back, a formatter that rejects
  every input, one that accepts and reformats, and a message whose value is the byte \<open>1\<close>.
\<close>

definition failing_DecodeMessage :: "byte list \<Rightarrow> byte list \<times> error" where
  "failing_DecodeMessage b = (b, Some ''schema not found'')"

definition rejecting_Format :: "byte list \<Rightarrow> byte list \<times> error" where
  "rejecting_Format b = ([], Some ''invalid character'')"

definition spacing_Format :: "byte list \<Rightarrow> byte list \<times> error" where
  "spacing_Format b = (b @ [32], None)"

definition raw_failing_cfg :: config where
  "raw_failing_cfg =
     \<lparr>offsetFlag = ''oldest'', raw = True, follow = False,
      schemaCache = Some failing_DecodeMessage,
      prettyjson_Format = rejecting_Format, keyfmt_Format = rejecting_Format\<rparr>"

definition pretty_failing_cfg :: config where
  "pretty_failing_cfg =
     \<lparr>offsetFlag = ''oldest'', raw = False, follow = False,
      schemaCache = Some failing_DecodeMessage,
      prettyjson_Format = spacing_Format, keyfmt_Format = rejecting_Format\<rparr>"

definition one_message :: ConsumerMessage where
  "one_message =
     \<lparr>Headers = [], Timestamp = ''2019-01-01 00:00:00 +0000 UTC'', Key = [],
      Value = [49], Partition = 0, Offset = 0\<rparr>"

text \<open>
  A leader that answers every probe with an error, and one that answers the first probe with
  the high watermark \<open>h\<close> for every partition; polls that follow their timer at once; a
  consumer that accepts every partition and delivers no message, or one message.
\<close>

definition failing_leader :: Broker where
  "failing_leader i = (None, Some ''EOF'')"

definition response_with :: "int64 \<Rightarrow> OffsetResponse" where
  "response_with h tp = Some h"

definition answering_leader :: "int64 \<Rightarrow> Broker" where
  "answering_leader h i = (Some (response_with h), None)"

definition prompt_poll :: "int32 \<Rightarrow> nat \<Rightarrow> nat" where
  "prompt_poll p i = 0"

definition accepting :: "int32 \<Rightarrow> int64 \<Rightarrow> error" where
  "accepting p off = None"

definition no_messages :: "int32 \<Rightarrow> int64 \<Rightarrow> ConsumerMessage list" where
  "no_messages p off = []"

definition one_each :: "int32 \<Rightarrow> int64 \<Rightarrow> ConsumerMessage list" where
  "one_each p off = [one_message]"

text \<open>A topic with the one partition 0, whose high watermark is \<open>h\<close>.\<close>

definition leader_of_all :: "int64 \<Rightarrow> int32 \<Rightarrow> string + Broker" where
  "leader_of_all h p = Inr (answering_leader h)"

definition single_partition :: "int64 \<Rightarrow> world" where
  "single_partition h =
     \<lparr>topic = ''t'', partitions = [0], Leader = leader_of_all h, poll_delay = prompt_poll,
      ConsumePartition = accepting, Messages = no_messages\<rparr>"

text \<open>
  A topic with the partitions 0 and 1: the high watermark of partition 0 is \<open>h0\<close>, that of
  partition 1 is 50.
\<close>

definition leaders :: "int64 \<Rightarrow> int32 \<Rightarrow> string + Broker" where
  "leaders h0 p = Inr (answering_leader (if p = 0 then h0 else 50))"

definition two_partitions :: "int64 \<Rightarrow> world" where
  "two_partitions h0 =
     \<lparr>topic = ''t'', partitions = [0, 1], Leader = leaders h0, poll_delay = prompt_poll,
      ConsumePartition = accepting, Messages = no_messages\<rparr>"

definition two_talking_partitions :: world where
  "two_talking_partitions =
     \<lparr>topic = ''t'', partitions = [0, 1], Leader = leaders 100, poll_delay = prompt_poll,
      ConsumePartition = accepting, Messages = one_each\<rparr>"

text \<open>
  \<^verbatim>\<open>kaf consume t\<close> with the default \<^verbatim>\<open>--offset oldest\<close>; the same with \<^verbatim>\<open>-f\<close>; and
  \<^verbatim>\<open>kaf consume t -f --offset newest\<close>.
\<close>

definition oldest_cfg :: config where
  "oldest_cfg =
     \<lparr>offsetFlag = ''oldest'', raw = False, follow = False, schemaCache = None,
      prettyjson_Format = rejecting_Format, keyfmt_Format = rejecting_Format\<rparr>"

definition follow_oldest_cfg :: config where
  "follow_oldest_cfg =
     \<lparr>offsetFlag = ''oldest'', raw = False, follow = True, schemaCache = None,
      prettyjson_Format = rejecting_Format, keyfmt_Format = rejecting_Format\<rparr>"

definition follow_cfg :: config where
  "follow_cfg =
     \<lparr>offsetFlag = ''newest'', raw = False, follow = True, schemaCache = None,
      prettyjson_Format = rejecting_Format, keyfmt_Format = rejecting_Format\<rparr>"

section \<open>Facts about the library functions\<close>

lemma digit_val_digit_char: "d < 10 \<Longrightarrow> digit_val (digit_char d) = d"
  by (simp add: digit_val_def digit_char_def)

lemma decimal_value_snoc: "decimal_value (s @ [c]) = 10 * decimal_value s + digit_val c"
  by (simp add: decimal_value_def)

lemma decimal_value_decimal: "decimal_value (decimal n) = n"
proof (induction n rule: decimal.induct)
  case (1 n)
  show ?case
  proof (cases "n < 10")
    case True
    then show ?thesis
      by (subst decimal.simps) (simp add: decimal_value_def digit_val_digit_char)
  next
    case False
    with 1 have "decimal_value (decimal (n div 10)) = n div 10"
      by simp
    with False show ?thesis
      by (subst decimal.simps) (simp add: decimal_value_snoc digit_val_digit_char)
  qed
qed

lemma octet_cases:
  assumes "n < (64::nat)"
  obtains "n < 8" | "8 \<le> n" "n < 16" | "16 \<le> n" "n < 24" | "24 \<le> n" "n < 32"
    | "32 \<le> n" "n < 40" | "40 \<le> n" "n < 48" | "48 \<le> n" "n < 56" | "56 \<le> n" "n < 64"
  using assms by linarith

lemma BigEndian_Uint64_be_bytes: "BigEndian_Uint64 (be_bytes v) = v"
  unfolding BigEndian_Uint64_def be_bytes_def
  apply (rule bit_word_eqI)
  apply (simp add: bit_simps cong: conj_cong)
  subgoal for n
    by (erule octet_cases) (simp_all add: less_diff_conv2)
  done

lemma length_be_bytes: "length (be_bytes v) = 8"
  by (simp add: be_bytes_def)

section \<open>The retry loop: when it returns and when it does not\<close>

lemma retry_loop_spins_aux:
  assumes "retry_loop pd ldr d i err = Some r"
  shows "\<exists>j\<ge>i. d \<le> pd j \<or> snd (ldr j) = None"
  using assms
proof (rule retry_loop.raw_induct
    [rotated, where P = "\<lambda>pd ldr d i err r. \<exists>j\<ge>i. d \<le> pd j \<or> snd (ldr j) = None"],
    goal_cases)
  case (1 loop pd ldr d i err r)
  show ?case
  proof (cases "d \<le> pd i \<or> snd (ldr i) = None")
    case True
    then show ?thesis by blast
  next
    case False
    then obtain offs e where l: "ldr i = (offs, Some e)" and nd: "\<not> d \<le> pd i"
      by (cases "ldr i") auto
    with 1(2) have "loop pd ldr d (Suc i) (Some e) = Some r"
      by simp
    from 1(1) [OF this] obtain j where "Suc i \<le> j" "d \<le> pd j \<or> snd (ldr j) = None"
      by blast
    then have "i \<le> j \<and> (d \<le> pd j \<or> snd (ldr j) = None)"
      by simp
    then show ?thesis ..
  qed
qed

lemma retry_loop_never_returns:
  assumes "\<forall>j\<ge>i. pd j < d" and "\<forall>j\<ge>i. snd (ldr j) \<noteq> None"
  shows "retry_loop pd ldr d i err = None"
proof (cases "retry_loop pd ldr d i err")
  case None
  then show ?thesis .
next
  case (Some r)
  from retry_loop_spins_aux [OF this]
  obtain j where "i \<le> j" and "d \<le> pd j \<or> snd (ldr j) = None"
    by blast
  with assms have False
    by (auto simp: not_le [symmetric])
  then show ?thesis ..
qed

lemma retry_loop_first_success:
  assumes "\<forall>j. i \<le> j \<and> j \<le> k \<longrightarrow> pd j < d"
    and "\<forall>j. i \<le> j \<and> j < k \<longrightarrow> snd (ldr j) \<noteq> None"
    and "ldr k = (offs, None)" and "i \<le> k"
  shows "retry_loop pd ldr d i err = Some ((offs, None), Suc k)"
  using assms
proof (induction "k - i" arbitrary: i err)
  case 0
  then have "i = k" by simp
  with 0 show ?case
    by (subst retry_loop.simps) (simp add: not_le)
next
  case (Suc n)
  then have ik: "i < k" by simp
  with Suc.prems obtain o' e where l: "ldr i = (o', Some e)"
    by (cases "ldr i") (auto simp: )
  have "retry_loop pd ldr d (Suc i) (Some e) = Some ((offs, None), Suc k)"
    using Suc.hyps(2) Suc.prems ik by (intro Suc.hyps(1)) auto
  moreover have "\<not> d \<le> pd i"
    using Suc.prems(1) ik by (simp add: not_le)
  ultimately show ?case
    using l by (subst retry_loop.simps) simp
qed

lemma retry_loop_timer_fires:
  "d \<le> pd i \<Longrightarrow> retry_loop pd ldr d i err = Some ((None, err), i)"
  by (subst retry_loop.simps) simp

text \<open>
  Claim C1. With its deadline of 500ms, the retry loop makes a bounded number of attempts and
  returns within the deadline: the offsets as soon as an attempt succeeds, and otherwise the
  last error once the deadline has passed. The first half holds (\<open>retry_loop_first_success\<close>).
  The second does not: the timer is created anew in every iteration, so the deadline is only
  seen when a single poll comes 500ms after its own timer was made
  (\<open>retry_loop_timer_fires\<close>). Against a leader whose every answer is an error, with polls
  that follow the timer at once, the loop never returns.
\<close>

theorem getAvailableOffsetsRetry_never_returns:
  "getAvailableOffsetsRetry (prompt_poll 0) failing_leader offsetsRetry = None"
  unfolding getAvailableOffsetsRetry_def
  by (rule retry_loop_never_returns) (simp_all add: offsetsRetry_def prompt_poll_def failing_leader_def)

section \<open>Header decoding: what holds and what faults\<close>

lemma hdrValue_of_empty: "elems v = [] \<Longrightarrow> hdrValue_of v = Inr []"
  by (simp add: hdrValue_of_def len_def)

lemma hdrValue_of_default:
  "elems v = b # bs \<Longrightarrow> b \<noteq> 161 \<Longrightarrow> b \<noteq> 131 \<Longrightarrow>
   hdrValue_of v = Inr (string_of_bytes (elems v))"
  by (simp add: hdrValue_of_def len_def)

lemma hdrValue_of_short_string:
  assumes "elems v = 161 # l # bs" and "unat l \<le> length bs" and "unat l \<le> 253"
  shows "hdrValue_of v = Inr (string_of_bytes (take (unat l) bs))"
proof -
  from assms(3) have hi: "unat (2 + l) = 2 + unat l"
    by (simp add: unat_word_ariths)
  from assms(1,2) have "slice v 2 (2 + unat l) = Inr (take (unat l) bs)"
    by (simp add: slice_def cap_def)
  with assms(1) hi show ?thesis
    by (simp add: hdrValue_of_def len_def index_def)
qed

lemma hdrValue_of_hello:
  "hdrValue_of \<lparr>elems = [161, 5, 104, 101, 108, 108, 111], spare = []\<rparr> = Inr ''hello''"
proof -
  have "hdrValue_of \<lparr>elems = [161, 5, 104, 101, 108, 108, 111], spare = []\<rparr>
      = Inr (string_of_bytes (take (unat (5 :: byte)) [104, 101, 108, 108, 111]))"
    by (rule hdrValue_of_short_string) simp_all
  then show ?thesis
    by (simp add: string_of_bytes_def char_of_def bit_0)
qed

lemma hdrValue_of_length_wraps:
  assumes "elems v = 161 # l # bs" and "254 \<le> unat l"
  shows "hdrValue_of v = Inl (SliceBoundsOutOfRange 2 (unat l - 254) (cap v))"
proof -
  have lt: "unat l < 256"
    using unsigned_less [of l, where ?'a = nat] by simp
  have "unat (2 + l) = (2 + unat l) mod 256"
    by (simp add: unat_word_ariths)
  also have "\<dots> = unat l - 254"
    using assms(2) lt by (simp add: mod_if)
  finally have hi: "unat (2 + l) = unat l - 254" .
  have "unat l - 254 < 2"
    using lt by simp
  then have "slice v 2 (unat l - 254) = Inl (SliceBoundsOutOfRange 2 (unat l - 254) (cap v))"
    by (simp add: slice_def)
  with assms(1) hi show ?thesis
    by (simp add: hdrValue_of_def len_def index_def)
qed

text \<open>
  Claim C4. A header value that is malformed (unrecognised first byte, empty, or a first byte
  of 0xA1 or 0x83 with too few bytes after it) is rendered as its raw bytes and never raises.
  The code has the guard for the empty value and the default branch for an unrecognised
  first byte, and no bounds check for the truncated encodings: on the one-byte value 0xA1 the
  read of \<^verbatim>\<open>hdr.Value[1]\<close> panics with index 1 out of range for length 1.
\<close>

theorem hdrValue_of_truncated_panics:
  "hdrValue_of \<lparr>elems = [161], spare = []\<rparr> = Inl (IndexOutOfRange 1 1)"
  by (simp add: hdrValue_of_def len_def index_def)

text \<open>
  Claim C6. A header value 0xA1, a length byte L and at least L further bytes decodes to those
  L bytes as text, for every L. The upper slice bound is computed in 8 bits, so for L = 254 it
  wraps to 0 and the slice expression \<^verbatim>\<open>hdr.Value[2:0]\<close> panics, although all 254 bytes
  are present.
\<close>

theorem hdrValue_of_length_254_panics:
  "hdrValue_of \<lparr>elems = 161 # 254 # replicate 254 120, spare = []\<rparr>
     = Inl (SliceBoundsOutOfRange 2 0 256)"
  by (simp add: hdrValue_of_def len_def index_def slice_def cap_def)

text \<open>
  Claim C7. A header value 0x83 followed by at least eight bytes that encode, big-endian, the
  unsigned 64-bit integer \<open>V\<close> decodes to the decimal representation of \<open>V\<close>. Bytes after
  the eight, and the spare capacity of the slice, do not matter.
\<close>

theorem hdrValue_of_uint64:
  "hdrValue_of \<lparr>elems = 131 # be_bytes V @ rest, spare = sp\<rparr> = Inr (decimal (unat V))"
proof -
  have "slice \<lparr>elems = 131 # be_bytes V @ rest, spare = sp\<rparr> 1 9 = Inr (be_bytes V)"
    by (simp add: slice_def cap_def length_be_bytes)
  then show ?thesis
    by (simp add: hdrValue_of_def len_def FormatUint10_def BigEndian_Uint64_be_bytes)
qed

theorem hdrValue_of_uint64_witness:
  "hdrValue_of \<lparr>elems = [131, 0, 0, 0, 0, 0, 0, 48, 57], spare = []\<rparr> = Inr ''12345''"
proof -
  have "be_bytes 12345 = [0, 0, 0, 0, 0, 0, 48, 57]"
    by (simp add: be_bytes_def drop_bit_eq_div)
  moreover have "decimal (unat (12345 :: uint64)) = ''12345''"
    by (simp add: decimal.simps digit_char_def char_of_def bit_0)
  ultimately show ?thesis
    using hdrValue_of_uint64 [of 12345 "[]" "[]"] by simp
qed

section \<open>Rendering a message: raw output and failed decoding\<close>

lemma decode_error_line_nonempty: "\<exists>s. decode_error_line e = Direct s \<and> s \<noteq> []"
  by (simp add: decode_error_line_def)

text \<open>
  Claim C10 as stated: with raw output on, nothing is written to the diagnostics stream for any
  record, not even the diagnostic of a failed schema decode. The diagnostic is put into the
  buffer at line 133, before the test of \<open>raw\<close>, and the buffer is written at line 178
  whatever \<open>raw\<close> is.
\<close>

theorem raw_still_writes_decode_error:
  "raw raw_failing_cfg \<and>
   render_message raw_failing_cfg one_message =
     Inr \<lparr>to_stderr = [Direct (''could not decode Avro data: schema not found'' @ NL)],
          to_stdout = [49]\<rparr>"
  by (simp add: render_message_def avroDecode_def raw_failing_cfg_def one_message_def
      failing_DecodeMessage_def decode_error_line_def)

text \<open>
  Claim C10, amended: with raw output on, the diagnostics of a record are the line of the
  failed decode of its value when that decode fails, and nothing otherwise (no headers, key,
  partition, offset or timestamp); the payload is the decoder's bytes, not reformatted.
\<close>

theorem render_message_raw:
  assumes "raw cfg"
  shows "render_message cfg msg =
     Inr \<lparr>to_stderr = (case snd (avroDecode cfg (Value msg)) of
                          None \<Rightarrow> [] | Some e \<Rightarrow> [decode_error_line e]),
          to_stdout = fst (avroDecode cfg (Value msg))\<rparr>"
  using assms by (simp add: render_message_def split: prod.splits)

theorem render_message_raw_witness:
  "raw raw_failing_cfg \<and>
   render_message raw_failing_cfg one_message =
     Inr \<lparr>to_stderr = [decode_error_line ''schema not found''], to_stdout = [49]\<rparr>"
proof -
  have r: "raw raw_failing_cfg"
    by (simp add: raw_failing_cfg_def)
  have "avroDecode raw_failing_cfg (Value one_message) = ([49], Some ''schema not found'')"
    by (simp add: avroDecode_def raw_failing_cfg_def one_message_def failing_DecodeMessage_def)
  with r render_message_raw [OF r, of one_message] show ?thesis
    by simp
qed

text \<open>
  Claim C5 as stated: every record yields one output record even when the schema decode of
  its value or key fails, with a non-empty diagnostic, and the displayed bytes equal the
  raw input bytes. The loop displays what the decoder returned, and with raw output off it
  passes those bytes through the formatter first: a value on which decoding fails and that
  the formatter accepts is displayed reformatted.
\<close>

theorem displayed_bytes_differ_from_raw:
  "avroDecode pretty_failing_cfg (Value one_message) = (Value one_message, Some ''schema not found'') \<and>
   render_message pretty_failing_cfg one_message =
     Inr \<lparr>to_stderr = [decode_error_line ''schema not found''] @ position_lines one_message,
          to_stdout = [49, 32]\<rparr> \<and>
   Value one_message = [49]"
  by (simp add: render_message_def avroDecode_def pretty_failing_cfg_def one_message_def
      failing_DecodeMessage_def spacing_Format_def key_lines_def)

text \<open>
  Claim C5, amended: a record whose header values decode without a fault (or any record,
  with raw output on) yields exactly one block, also when the schema decode of its value or
  key fails. The failure does not raise; the non-empty line of the failed decode is among
  the block's diagnostics (for the key when raw output is off and the key is not empty: only
  then is the key decoded); the displayed bytes are the bytes the decoder returned, reformatted
  when raw output is off and the formatter accepts them. They are the raw input bytes when
  the decoder hands its input back and raw output is on or the formatter rejects them.
\<close>

theorem render_message_decode_failure:
  assumes "raw cfg \<or> header_lines (Headers msg) = Inr ls"
  shows "\<exists>b. render_message cfg msg = Inr b
     \<and> to_stdout b = shown_bytes cfg (fst (avroDecode cfg (Value msg)))
     \<and> (\<forall>e. snd (avroDecode cfg (Value msg)) = Some e \<longrightarrow>
            decode_error_line e \<in> set (to_stderr b) \<and>
            (\<exists>s. decode_error_line e = Direct s \<and> s \<noteq> []))
     \<and> (\<forall>e. \<not> raw cfg \<and> Key msg \<noteq> [] \<and> snd (avroDecode cfg (Key msg)) = Some e \<longrightarrow>
            decode_error_line e \<in> set (to_stderr b) \<and>
            Tabbed (''Key:'' @ TAB @ formatKey cfg (fst (avroDecode cfg (Key msg))) @ NL)
              \<in> set (to_stderr b))
     \<and> (\<forall>e. avroDecode cfg (Value msg) = (Value msg, Some e) \<and>
            (raw cfg \<or> snd (prettyjson_Format cfg (Value msg)) \<noteq> None) \<longrightarrow>
            to_stdout b = Value msg)"
proof -
  obtain d err where v: "avroDecode cfg (Value msg) = (d, err)"
    by (cases "avroDecode cfg (Value msg)")
  obtain k kerr where kk: "avroDecode cfg (Key msg) = (k, kerr)"
    by (cases "avroDecode cfg (Key msg)")
  obtain f ferr where ff: "prettyjson_Format cfg d = (f, ferr)"
    by (cases "prettyjson_Format cfg d")
  define stderr0 where "stderr0 = (case err of None \<Rightarrow> [] | Some e \<Rightarrow> [decode_error_line e])"
  have in0: "decode_error_line e \<in> set stderr0" if "err = Some e" for e
    using that by (simp add: stderr0_def)
  show ?thesis
  proof (cases "raw cfg")
    case True
    with v have "render_message cfg msg = Inr \<lparr>to_stderr = stderr0, to_stdout = d\<rparr>"
      by (simp add: render_message_def stderr0_def)
    with True v in0 show ?thesis
      by (auto simp: shown_bytes_def decode_error_line_nonempty)
  next
    case False
    with assms have h: "header_lines (Headers msg) = Inr ls"
      by simp
    define title where
      "title = (if 0 < length (Headers msg) then [Tabbed (''Headers:'' @ NL)] else [])"
    have sh: "shown_bytes cfg d = (case ferr of None \<Rightarrow> f | Some x \<Rightarrow> d)"
      using False ff by (simp add: shown_bytes_def)
    have r: "render_message cfg msg =
        Inr \<lparr>to_stderr = stderr0 @ title @ ls @ key_lines cfg (Key msg) @ position_lines msg,
             to_stdout = shown_bytes cfg d\<rparr>"
      using False v ff h by (simp add: render_message_def stderr0_def title_def sh Let_def)
    have key: "decode_error_line e \<in> set (key_lines cfg (Key msg)) \<and>
        Tabbed (''Key:'' @ TAB @ formatKey cfg k @ NL) \<in> set (key_lines cfg (Key msg))"
      if "Key msg \<noteq> []" and "kerr = Some e" for e
      using that kk by (simp add: key_lines_def)
    have same: "shown_bytes cfg (Value msg) = Value msg"
      if "snd (prettyjson_Format cfg (Value msg)) \<noteq> None"
      using that False by (cases "prettyjson_Format cfg (Value msg)") (auto simp: shown_bytes_def)
    from False r v kk in0 key same show ?thesis
      by (auto simp: decode_error_line_nonempty)
  qed
qed

theorem render_message_decode_failure_witness:
  "\<exists>b. render_message pretty_failing_cfg one_message = Inr b
     \<and> to_stdout b = [49, 32]
     \<and> decode_error_line ''schema not found'' \<in> set (to_stderr b)"
proof -
  have h: "raw pretty_failing_cfg \<or> header_lines (Headers one_message) = Inr []"
    by (simp add: one_message_def)
  have v: "avroDecode pretty_failing_cfg (Value one_message) = ([49], Some ''schema not found'')"
    by (simp add: avroDecode_def pretty_failing_cfg_def one_message_def failing_DecodeMessage_def)
  have s: "shown_bytes pretty_failing_cfg [49] = [49, 32]"
    by (simp add: shown_bytes_def pretty_failing_cfg_def spacing_Format_def)
  from render_message_decode_failure [OF h] v s show ?thesis
    by auto
qed

section \<open>Runs of the consume command\<close>

lemma run_snoc: "run cfg w (sched @ [p]) s = step cfg w p (run cfg w sched s)"
  by (simp add: run_def)

subsection \<open>The probe comes before the consumer is attached\<close>

lemma probes_precede_Nil: "probes_precede []"
  by (simp add: probes_precede_def)

lemma probes_precede_snoc:
  "probes_precede (es @ [e]) \<longleftrightarrow>
     probes_precede es \<and> (\<forall>p off. e = ConsumeCall p off \<longrightarrow> (\<exists>n. OffsetProbe p n \<in> set es))"
proof
  assume a: "probes_precede (es @ [e])"
  have "probes_precede es"
    unfolding probes_precede_def
  proof (intro allI impI)
    fix pre post p off
    assume "es = pre @ ConsumeCall p off # post"
    then have "es @ [e] = pre @ ConsumeCall p off # (post @ [e])"
      by simp
    with a show "\<exists>n. OffsetProbe p n \<in> set pre"
      unfolding probes_precede_def by blast
  qed
  moreover have "\<exists>n. OffsetProbe p n \<in> set es" if "e = ConsumeCall p off" for p off
  proof -
    from that have "es @ [e] = es @ ConsumeCall p off # []"
      by simp
    with a show ?thesis
      unfolding probes_precede_def by blast
  qed
  ultimately show "probes_precede es \<and> (\<forall>p off. e = ConsumeCall p off \<longrightarrow> (\<exists>n. OffsetProbe p n \<in> set es))"
    by blast
next
  assume b: "probes_precede es \<and> (\<forall>p off. e = ConsumeCall p off \<longrightarrow> (\<exists>n. OffsetProbe p n \<in> set es))"
  show "probes_precede (es @ [e])"
    unfolding probes_precede_def
  proof (intro allI impI)
    fix pre post p off
    assume eq: "es @ [e] = pre @ ConsumeCall p off # post"
    show "\<exists>n. OffsetProbe p n \<in> set pre"
    proof (cases post rule: rev_cases)
      case Nil
      with eq have "es = pre" "e = ConsumeCall p off"
        by simp_all
      with b show ?thesis
        by blast
    next
      case (snoc post' x)
      with eq have "es = pre @ ConsumeCall p off # post'"
        by simp
      with b show ?thesis
        unfolding probes_precede_def by blast
    qed
  qed
qed

lemma probed_inv_init: "probed_inv (init cfg)"
  by (simp add: probed_inv_def init_def probes_precede_Nil)

lemma probed_inv_step: "probed_inv s \<Longrightarrow> probed_inv (step cfg w p s)"
  unfolding probed_inv_def step_def move_def
  by (auto simp: probes_precede_snoc split: place.splits sum.splits option.splits prod.splits list.splits)

lemma probed_inv_run: "probed_inv (run cfg w sched (init cfg))"
proof (induction sched rule: rev_induct)
  case Nil
  show ?case by (simp add: run_def probed_inv_init)
next
  case (snoc p sched)
  then show ?case by (simp add: run_snoc probed_inv_step)
qed


subsection \<open>The shared start offset\<close>

lemma probe_followOffset_probed_H:
  assumes "Leader w p = Inr ldr" and "probe_followOffset w ldr p = Some (n, Inr (Inr fo))"
  shows "\<exists>h. probed_H w p = Some h \<and> fo = h - 1"
  using assms
  by (auto simp: probe_followOffset_def probed_H_def split: option.splits prod.splits)

lemma flag_offset_inv_init: "flag_offset_inv cfg w (init cfg)"
  by (simp add: flag_offset_inv_def init_def)

lemma flag_offset_inv_step:
  assumes "\<forall>h. follow cfg \<and> probed_H w p = Some h \<longrightarrow> \<not> 0 <s h - 1"
    and "flag_offset_inv cfg w s"
  shows "flag_offset_inv cfg w (step cfg w p s)"
proof (cases "outcome s = Running \<and> p \<in> set (partitions w)")
  case False
  with assms(2) show ?thesis
    by (auto simp: step_def)
next
  case True
  show ?thesis
  proof (cases "places s p")
    case AtProbe
    with True assms(2) show ?thesis
      unfolding flag_offset_inv_def step_def move_def
      by (auto dest: probe_followOffset_probed_H split: sum.splits option.splits prod.splits)
  next
    case (AtFollow fo)
    with True assms(2) obtain h where h: "probed_H w p = Some h" "fo = h - 1"
      unfolding flag_offset_inv_def by blast
    with assms(1) have "\<not> (follow cfg \<and> 0 <s fo)"
      by blast
    with True AtFollow assms(2) show ?thesis
      unfolding flag_offset_inv_def step_def move_def by auto
  qed (use True assms(2) in \<open>auto simp: flag_offset_inv_def step_def move_def
        split: sum.splits option.splits prod.splits list.splits\<close>)
qed

lemma flag_offset_inv_run:
  assumes "\<forall>q\<in>set sched. \<forall>h. follow cfg \<and> probed_H w q = Some h \<longrightarrow> \<not> 0 <s h - 1"
  shows "flag_offset_inv cfg w (run cfg w sched (init cfg))"
  using assms
proof (induction sched rule: rev_induct)
  case Nil
  show ?case by (simp add: run_def flag_offset_inv_init)
next
  case (snoc p sched)
  then have "flag_offset_inv cfg w (run cfg w sched (init cfg))"
    and "\<forall>h. follow cfg \<and> probed_H w p = Some h \<longrightarrow> \<not> 0 <s h - 1"
    by simp_all
  then show ?case
    by (simp add: run_snoc flag_offset_inv_step)
qed

subsection \<open>Evaluating runs in the concrete worlds\<close>

lemma getAvailableOffsetsRetry_first_try:
  "pd 0 < d \<Longrightarrow> ldr 0 = (offs, None) \<Longrightarrow>
   getAvailableOffsetsRetry pd ldr d = Some ((offs, None), Suc 0)"
  unfolding getAvailableOffsetsRetry_def
  by (rule retry_loop_first_success) simp_all

lemma retry_answering_leader:
  "getAvailableOffsetsRetry (prompt_poll p) (answering_leader h) offsetsRetry
     = Some ((Some (response_with h), None), Suc 0)"
  by (rule getAvailableOffsetsRetry_first_try)
    (simp_all add: prompt_poll_def offsetsRetry_def answering_leader_def)

lemma probe_answering_leader:
  "poll_delay w = prompt_poll \<Longrightarrow>
   probe_followOffset w (answering_leader h) p = Some (Suc 0, Inr (Inr (h - 1)))"
  by (simp add: probe_followOffset_def retry_answering_leader response_with_def)

lemma single_partition_simps:
  "partitions (single_partition h) = [0]"
  "Leader (single_partition h) p = Inr (answering_leader h)"
  "poll_delay (single_partition h) = prompt_poll"
  "ConsumePartition (single_partition h) p off = None"
  "Messages (single_partition h) p off = []"
  by (simp_all add: single_partition_def leader_of_all_def accepting_def no_messages_def)

lemma two_partitions_simps:
  "partitions (two_partitions h0) = [0, 1]"
  "Leader (two_partitions h0) p = Inr (answering_leader (if p = 0 then h0 else 50))"
  "poll_delay (two_partitions h0) = prompt_poll"
  "ConsumePartition (two_partitions h0) p off = None"
  "Messages (two_partitions h0) p off = []"
  by (simp_all add: two_partitions_def leaders_def accepting_def no_messages_def)

lemma two_talking_partitions_simps:
  "partitions two_talking_partitions = [0, 1]"
  "Leader two_talking_partitions p = Inr (answering_leader (if p = 0 then 100 else 50))"
  "poll_delay two_talking_partitions = prompt_poll"
  "ConsumePartition two_talking_partitions p off = None"
  "Messages two_talking_partitions p off = [one_message]"
  by (simp_all add: two_talking_partitions_def leaders_def accepting_def one_each_def)

lemma probed_H_single_partition: "probed_H (single_partition h) 0 = Some h"
  by (simp add: probed_H_def single_partition_simps retry_answering_leader response_with_def)

lemmas eval_run = run_def init_def step_def move_def probe_answering_leader offset_of_flag_def
  OffsetNewest_def OffsetOldest_def word_sless_alt

lemma run_oldest_single:
  "run oldest_cfg (single_partition 7) [0, 0, 0, 0] (init oldest_cfg) =
     \<lparr>offset = - 2, mu = None, places = (\<lambda>p. AtLeader)(0 := Recv (- 2) 0),
      net = [LeaderLookup 0, OffsetProbe 0 (Suc 0), ConsumeCall 0 (- 2)], out = [], outcome = Running\<rparr>"
  by (simp add: eval_run single_partition_simps oldest_cfg_def)

lemma run_follow_oldest_single:
  "run follow_oldest_cfg (single_partition 0) [0, 0, 0, 0] (init follow_oldest_cfg) =
     \<lparr>offset = - 2, mu = None, places = (\<lambda>p. AtLeader)(0 := Recv (- 2) 0),
      net = [LeaderLookup 0, OffsetProbe 0 (Suc 0), ConsumeCall 0 (- 2)], out = [], outcome = Running\<rparr>"
  by (simp add: eval_run single_partition_simps follow_oldest_cfg_def)

subsection \<open>Which start offset a partition gets\<close>

lemma run_follow_two_100:
  "run follow_cfg (two_partitions 100) [1, 1, 1, 0, 0, 0, 1, 1] (init follow_cfg) =
     \<lparr>offset = 99, mu = None,
      places = (\<lambda>p. AtLeader)(0 := AtPrint, 1 := Recv 99 0),
      net = [LeaderLookup 1, OffsetProbe 1 (Suc 0), LeaderLookup 0, OffsetProbe 0 (Suc 0),
             ConsumeCall 1 99],
      out = [(Startup 1, ToStderr (starting_line 1 99))], outcome = Running\<rparr>"
  by (simp add: eval_run two_partitions_simps follow_cfg_def)

lemma run_follow_two_200:
  "run follow_cfg (two_partitions 200) [1, 1, 1, 0, 0, 0, 1, 1] (init follow_cfg) =
     \<lparr>offset = 199, mu = None,
      places = (\<lambda>p. AtLeader)(0 := AtPrint, 1 := Recv 199 0),
      net = [LeaderLookup 1, OffsetProbe 1 (Suc 0), LeaderLookup 0, OffsetProbe 0 (Suc 0),
             ConsumeCall 1 199],
      out = [(Startup 1, ToStderr (starting_line 1 199))], outcome = Running\<rparr>"
  by (simp add: eval_run two_partitions_simps follow_cfg_def)

lemma probed_H_two_partitions_1: "probed_H (two_partitions h0) 1 = Some 50"
  by (simp add: probed_H_def two_partitions_simps retry_answering_leader response_with_def)

text \<open>
  Claim C2 as stated: resolving the start offset in Oldest or Newest mode performs no network
  probe of the partition leader. The worker looks up the leader and probes the offsets
  before it looks at \<open>follow\<close>: with \<^verbatim>\<open>--offset oldest\<close> and no \<^verbatim>\<open>-f\<close>, the probe of
  partition 0 is on the network before the consumer is attached at \<open>OffsetOldest\<close>.
\<close>

theorem oldest_mode_probes_leader:
  "\<not> follow oldest_cfg \<and> offsetFlag oldest_cfg = ''oldest'' \<and>
   net (run oldest_cfg (single_partition 7) [0, 0, 0, 0] (init oldest_cfg)) =
     [LeaderLookup 0, OffsetProbe 0 (Suc 0), ConsumeCall 0 OffsetOldest]"
  by (simp add: run_oldest_single) (simp add: oldest_cfg_def OffsetOldest_def)

text \<open>
  Claim C2, amended: in every mode (Oldest, Newest and Follow) and for every partition, the
  high-watermark probe is sent before the consumer is attached; when \<open>follow\<close> is off the
  result of the probe is not used, and the start offset is the sentinel of the offset flag.
\<close>

theorem probe_precedes_consume:
  assumes "net (run cfg w sched (init cfg)) = pre @ ConsumeCall p off # post"
  shows "(\<exists>n. OffsetProbe p n \<in> set pre) \<and> (follow cfg \<or> off = offset_of_flag (offsetFlag cfg))"
proof -
  have "probes_precede (net (run cfg w sched (init cfg)))"
    using probed_inv_run [of cfg w sched] by (simp add: probed_inv_def)
  with assms have probe: "\<exists>n. OffsetProbe p n \<in> set pre"
    unfolding probes_precede_def by blast
  have "off = offset_of_flag (offsetFlag cfg)" if "\<not> follow cfg"
  proof -
    from that have "flag_offset_inv cfg w (run cfg w sched (init cfg))"
      by (intro flag_offset_inv_run) simp
    moreover from assms have "ConsumeCall p off \<in> set (net (run cfg w sched (init cfg)))"
      by simp
    ultimately show ?thesis
      unfolding flag_offset_inv_def by blast
  qed
  with probe show ?thesis
    by blast
qed

theorem probe_precedes_consume_witness:
  "net (run oldest_cfg (single_partition 7) [0, 0, 0, 0] (init oldest_cfg)) =
     [LeaderLookup 0, OffsetProbe 0 (Suc 0)] @ ConsumeCall 0 OffsetOldest # [] \<and>
   (\<exists>n. OffsetProbe 0 n \<in> set [LeaderLookup 0, OffsetProbe 0 (Suc 0)]) \<and>
   (follow oldest_cfg \<or> OffsetOldest = offset_of_flag (offsetFlag oldest_cfg))"
proof -
  have n: "net (run oldest_cfg (single_partition 7) [0, 0, 0, 0] (init oldest_cfg)) =
     [LeaderLookup 0, OffsetProbe 0 (Suc 0)] @ ConsumeCall 0 OffsetOldest # []"
    by (simp add: run_oldest_single OffsetOldest_def)
  from probe_precedes_consume [OF n] n show ?thesis
    by simp
qed

text \<open>
  Claim C3 as stated: in Follow mode, a partition whose probed high watermark \<open>H\<close> makes
  \<open>H - 1\<close> not positive starts at the Newest sentinel and at no other sentinel. When the test
  of line 118 fails, \<open>offset\<close> keeps the value the offset flag gave it: with \<^verbatim>\<open>-f\<close> and the
  default \<^verbatim>\<open>--offset oldest\<close>, an empty partition is started at \<open>OffsetOldest\<close>.
\<close>

theorem follow_empty_partition_starts_oldest:
  "follow follow_oldest_cfg \<and> probed_H (single_partition 0) 0 = Some 0 \<and>
   places (run follow_oldest_cfg (single_partition 0) [0, 0, 0, 0] (init follow_oldest_cfg)) 0
     = Recv OffsetOldest 0 \<and>
   OffsetOldest \<noteq> OffsetNewest"
  by (simp add: run_follow_oldest_single probed_H_single_partition)
    (simp add: follow_oldest_cfg_def OffsetOldest_def OffsetNewest_def)

text \<open>
  Claim C3, amended: in Follow mode, as long as every worker that has moved probed a high
  watermark \<open>H\<close> with \<open>H - 1\<close> not positive (a topic with one partition, or with empty
  partitions only), every partition is started at the sentinel that the offset flag selects:
  Oldest for \<^verbatim>\<open>oldest\<close>, the default, and Newest otherwise; never at another negative offset.
\<close>

theorem follow_falls_back_to_flag_offset:
  assumes "follow cfg"
    and "\<forall>q\<in>set sched. \<forall>h. probed_H w q = Some h \<longrightarrow> \<not> 0 <s h - 1"
    and "ConsumeCall p off \<in> set (net (run cfg w sched (init cfg)))"
  shows "off = offset_of_flag (offsetFlag cfg) \<and> (off = OffsetOldest \<or> off = OffsetNewest)"
proof -
  from assms(2) have "flag_offset_inv cfg w (run cfg w sched (init cfg))"
    by (intro flag_offset_inv_run) blast
  with assms(3) have "off = offset_of_flag (offsetFlag cfg)"
    unfolding flag_offset_inv_def by blast
  then show ?thesis
    by (simp add: offset_of_flag_def)
qed

theorem follow_falls_back_to_flag_offset_witness:
  "follow follow_oldest_cfg \<and> probed_H (single_partition 0) 0 = Some 0 \<and>
   ConsumeCall 0 OffsetOldest
     \<in> set (net (run follow_oldest_cfg (single_partition 0) [0, 0, 0, 0] (init follow_oldest_cfg))) \<and>
   OffsetOldest = offset_of_flag (offsetFlag follow_oldest_cfg)"
proof -
  have f: "follow follow_oldest_cfg"
    by (simp add: follow_oldest_cfg_def)
  have h: "\<forall>q\<in>set [0, 0, 0, 0]. \<forall>h. probed_H (single_partition 0) q = Some h \<longrightarrow> \<not> 0 <s h - 1"
    by (simp add: probed_H_single_partition)
  have c: "ConsumeCall 0 OffsetOldest
     \<in> set (net (run follow_oldest_cfg (single_partition 0) [0, 0, 0, 0] (init follow_oldest_cfg)))"
    by (simp add: run_follow_oldest_single OffsetOldest_def)
  from follow_falls_back_to_flag_offset [OF f h c] f c show ?thesis
    by (simp add: probed_H_single_partition)
qed

text \<open>
  Claim C8. The start offset of a partition is computed once for that partition and depends
  only on its own probe and the offset mode. All workers assign and read the one variable
  \<open>offset\<close>. With \<^verbatim>\<open>-f\<close> and two partitions, partition 1 probes the high watermark 50 and
  assigns 49; before it attaches its consumer, partition 0 assigns its own value; partition 1
  is then started at 99 when the high watermark of partition 0 is 100, and at 199 when it
  is 200.
\<close>

theorem start_offset_follows_other_partition:
  "probed_H (two_partitions 100) 1 = Some 50 \<and> probed_H (two_partitions 200) 1 = Some 50 \<and>
   places (run follow_cfg (two_partitions 100) [1, 1, 1, 0, 0, 0, 1, 1] (init follow_cfg)) 1
     = Recv 99 0 \<and>
   places (run follow_cfg (two_partitions 200) [1, 1, 1, 0, 0, 0, 1, 1] (init follow_cfg)) 1
     = Recv 199 0"
  by (simp add: run_follow_two_100 run_follow_two_200 probed_H_two_partitions_1)

subsection \<open>The locked section\<close>

lemma contiguous_Nil: "contiguous []"
  by (simp add: contiguous_def)

lemma contiguous_snoc:
  assumes "contiguous xs" and "x \<in> set xs \<Longrightarrow> last xs = x"
  shows "contiguous (xs @ [x])"
  unfolding contiguous_def
proof (intro allI impI, elim conjE)
  fix pre a mid b post
  assume eq: "xs @ [x] = pre @ a # mid @ b # post" and ne: "a \<noteq> b"
  show "a \<notin> set post"
  proof (cases post rule: rev_cases)
    case Nil
    then show ?thesis by simp
  next
    case (snoc post' y)
    with eq have xs: "xs = pre @ a # mid @ b # post'" and y: "y = x"
      by simp_all
    from xs assms(1) ne have np: "a \<notin> set post'"
      unfolding contiguous_def by blast
    have "a \<noteq> x"
    proof
      assume ax: "a = x"
      with xs have "x \<in> set xs" by simp
      then have l: "last xs = x" by (rule assms(2))
      show False
      proof (cases "post' = []")
        case True
        with xs l have "b = x" by simp
        with ax ne show False by simp
      next
        case False
        with xs l have "last post' = x" by simp
        with False have "x \<in> set post'" using last_in_set by metis
        with ax np show False by simp
      qed
    qed
    with np snoc y show ?thesis by simp
  qed
qed

lemma block_inv_init: "block_inv (init cfg)"
  by (simp add: block_inv_def init_def rec_tags_def contiguous_Nil lock_inv_def)

lemma rec_tags_simps [simp]:
  "rec_tags (s\<lparr>places := pl\<rparr>) = rec_tags s"
  "rec_tags (s\<lparr>mu := m\<rparr>) = rec_tags s"
  "rec_tags (s\<lparr>net := n\<rparr>) = rec_tags s"
  "rec_tags (s\<lparr>offset := off\<rparr>) = rec_tags s"
  "rec_tags (s\<lparr>outcome := oc\<rparr>) = rec_tags s"
  "rec_tags (s\<lparr>out := out s @ [(Startup p, it)]\<rparr>) = rec_tags s"
  "rec_tags (s\<lparr>out := out s @ [(Rec p k, it)]\<rparr>) = rec_tags s @ [Rec p k]"
  by (simp_all add: rec_tags_def)

lemma block_inv_write:
  assumes inv: "block_inv s" and pl: "places s p = Writing off k (it # rest)"
  shows "block_inv (move p (Writing off k rest) (s\<lparr>out := out s @ [(Rec p k, it)]\<rparr>))"
proof -
  let ?tags = "rec_tags s"
  from inv have c: "contiguous ?tags" and l: "lock_inv s"
    and m: "\<And>q j. Rec q j \<in> set ?tags \<Longrightarrow> may_have (places s q) ?tags q j"
    unfolding block_inv_def by blast+
  from l pl have mu: "mu s = Some p"
    unfolding lock_inv_def by blast
  have last: "last ?tags = Rec p k" if "Rec p k \<in> set ?tags"
    using m [OF that] pl by simp
  have c': "contiguous (?tags @ [Rec p k])"
    using c last by (rule contiguous_snoc)
  have l': "lock_inv (move p (Writing off k rest) (s\<lparr>out := out s @ [(Rec p k, it)]\<rparr>))"
    using l mu unfolding lock_inv_def move_def by auto
  have m': "may_have (places (move p (Writing off k rest) (s\<lparr>out := out s @ [(Rec p k, it)]\<rparr>)) q)
              (?tags @ [Rec p k]) q j"
    if "Rec q j \<in> set (?tags @ [Rec p k])" for q j
  proof (cases "q = p")
    case True
    show ?thesis
    proof (cases "j = k")
      case True
      with \<open>q = p\<close> show ?thesis by (simp add: move_def)
    next
      case False
      with that True have "Rec p j \<in> set ?tags" by simp
      from m [OF this] pl False have "j < k" by simp
      with True show ?thesis by (simp add: move_def)
    qed
  next
    case False
    with that have in_tags: "Rec q j \<in> set ?tags" by simp
    have nw: "\<And>off' k' its'. places s q \<noteq> Writing off' k' its'"
    proof
      fix off' k' its' assume "places s q = Writing off' k' its'"
      with l have "mu s = Some q" unfolding lock_inv_def by blast
      with mu False show False by simp
    qed
    from m [OF in_tags] nw have "may_have (places s q) (?tags @ [Rec p k]) q j"
      by (cases "places s q") auto
    with False show ?thesis by (simp add: move_def)
  qed
  show ?thesis
    unfolding block_inv_def using c' l' m' by (simp add: move_def)
qed


lemma block_inv_unlock:
  assumes inv: "block_inv s" and pl: "places s p = Writing off k []"
  shows "block_inv (move p (Recv off (Suc k)) (s\<lparr>mu := None\<rparr>))"
proof -
  from inv have c: "contiguous (rec_tags s)" and l: "lock_inv s"
    and m: "\<And>q j. Rec q j \<in> set (rec_tags s) \<Longrightarrow> may_have (places s q) (rec_tags s) q j"
    unfolding block_inv_def by blast+
  from l pl have mu: "mu s = Some p"
    unfolding lock_inv_def by blast
  have l': "lock_inv (move p (Recv off (Suc k)) (s\<lparr>mu := None\<rparr>))"
    using l mu unfolding lock_inv_def move_def by auto
  have m': "may_have (places (move p (Recv off (Suc k)) (s\<lparr>mu := None\<rparr>)) q) (rec_tags s) q j"
    if "Rec q j \<in> set (rec_tags s)" for q j
    using m [OF that] pl by (cases "q = p") (auto simp: move_def)
  show ?thesis
    unfolding block_inv_def using c l' m' by (simp add: move_def)
qed

lemma block_inv_lock:
  assumes inv: "block_inv s" and pl: "places s p = AtLock off k its" and free: "mu s = None"
  shows "block_inv (move p (Writing off k its) (s\<lparr>mu := Some p\<rparr>))"
proof -
  from inv have c: "contiguous (rec_tags s)" and l: "lock_inv s"
    and m: "\<And>q j. Rec q j \<in> set (rec_tags s) \<Longrightarrow> may_have (places s q) (rec_tags s) q j"
    unfolding block_inv_def by blast+
  have l': "lock_inv (move p (Writing off k its) (s\<lparr>mu := Some p\<rparr>))"
    using l free unfolding lock_inv_def move_def by auto
  have m': "may_have (places (move p (Writing off k its) (s\<lparr>mu := Some p\<rparr>)) q) (rec_tags s) q j"
    if "Rec q j \<in> set (rec_tags s)" for q j
    using m [OF that] pl by (cases "q = p") (auto simp: move_def)
  show ?thesis
    unfolding block_inv_def using c l' m' by (simp add: move_def)
qed

text \<open>A move that keeps the lock and the output, to a place that allows what the old one did.\<close>

lemma block_inv_move:
  assumes inv: "block_inv s"
    and nw: "\<And>off k its. pl \<noteq> Writing off k its"
    and mono: "\<And>j. may_have (places s p) (rec_tags s) p j \<Longrightarrow> may_have pl (rec_tags s) p j"
    and same: "rec_tags s' = rec_tags s" "mu s' = mu s" "places s' = places s"
  shows "block_inv (move p pl s')"
proof -
  from inv have c: "contiguous (rec_tags s)" and l: "lock_inv s"
    and m: "\<And>q j. Rec q j \<in> set (rec_tags s) \<Longrightarrow> may_have (places s q) (rec_tags s) q j"
    unfolding block_inv_def by blast+
  have l': "lock_inv (move p pl s')"
    using l nw same unfolding lock_inv_def move_def by auto
  have m': "may_have (places (move p pl s') q) (rec_tags s) q j"
    if "Rec q j \<in> set (rec_tags s)" for q j
    using m [OF that] mono same by (cases "q = p") (auto simp: move_def)
  show ?thesis
    unfolding block_inv_def using c l' m' same by (simp add: move_def)
qed

lemma block_inv_same:
  assumes "block_inv s" and "rec_tags s' = rec_tags s" "mu s' = mu s" "places s' = places s"
  shows "block_inv s'"
  using assms by (simp add: block_inv_def lock_inv_def)

lemma block_inv_step: "block_inv s \<Longrightarrow> block_inv (step cfg w p s)"
proof (cases "outcome s = Running \<and> p \<in> set (partitions w)")
  case False
  assume "block_inv s"
  with False show ?thesis by (auto simp: step_def)
next
  case True
  assume inv: "block_inv s"
  note same = block_inv_same [OF inv]
  note moved = block_inv_move [OF inv]
  show ?thesis
  proof (cases "places s p")
    case AtLeader
    show ?thesis
    proof (cases "Leader w p")
      case (Inl e)
      with True AtLeader show ?thesis
        by (simp add: step_def) (rule same; simp)
    next
      case (Inr ldr)
      with True AtLeader show ?thesis
        by (simp add: step_def) (rule moved; simp)
    qed
  next
    case AtProbe
    show ?thesis
    proof (cases "Leader w p")
      case (Inl e)
      with True AtProbe inv show ?thesis
        by (simp add: step_def)
    next
      case (Inr ldr)
      show ?thesis
      proof (cases "probe_followOffset w ldr p")
        case None
        with True AtProbe Inr inv show ?thesis
          by (simp add: step_def)
      next
        case (Some r)
        obtain n res where r: "r = (n, res)"
          by (cases r)
        show ?thesis
        proof (cases res)
          case (Inl msg)
          with True AtProbe Inr Some r show ?thesis
            by (simp add: step_def) (rule same; simp)
        next
          case res: (Inr x)
          show ?thesis
          proof (cases x)
            case (Inl pn)
            with True AtProbe Inr Some r res show ?thesis
              by (simp add: step_def) (rule same; simp)
          next
            case fo: (Inr fo)
            with True AtProbe Inr Some r res show ?thesis
              by (simp add: step_def) (rule moved; simp)
          qed
        qed
      qed
    qed
  next
    case (AtFollow fo)
    with True show ?thesis
      by (auto simp: step_def intro!: moved)
  next
    case AtPrint
    with True show ?thesis
      by (simp add: step_def) (rule moved; simp)
  next
    case AtConsume
    with True show ?thesis
      by (cases "ConsumePartition w p (offset s)"; simp add: step_def) (rule moved same; simp)+
  next
    case (Recv off k)
    show ?thesis
    proof (cases "k < length (Messages w p off)")
      case False
      with True Recv show ?thesis
        by (simp add: step_def) (rule moved; simp)
    next
      case lt: True
      with True Recv show ?thesis
        by (cases "render_message cfg (Messages w p off ! k)"; simp add: step_def) (rule moved same; simp)+
    qed
  next
    case (AtLock off k its)
    with True inv show ?thesis
      by (simp add: step_def block_inv_lock)
  next
    case (Writing off k its)
    with True inv show ?thesis
      by (cases its) (simp_all add: step_def block_inv_unlock block_inv_write)
  next
    case Finished
    with True inv show ?thesis
      by (simp add: step_def)
  qed
qed

lemma block_inv_run: "block_inv (run cfg w sched (init cfg))"
proof (induction sched rule: rev_induct)
  case Nil
  show ?case by (simp add: run_def block_inv_init)
next
  case (snoc p sched)
  then show ?case by (simp add: run_snoc block_inv_step)
qed

lemma render_one_message_raw:
  "render_message raw_failing_cfg one_message =
     Inr \<lparr>to_stderr = [decode_error_line ''schema not found''], to_stdout = [49]\<rparr>"
  by (simp add: render_message_def avroDecode_def raw_failing_cfg_def one_message_def
      failing_DecodeMessage_def)

lemma raw_failing_cfg_simps:
  "follow raw_failing_cfg = False" "offsetFlag raw_failing_cfg = ''oldest''"
  by (simp_all add: raw_failing_cfg_def)

lemma run_two_talking:
  "rec_tags (run raw_failing_cfg two_talking_partitions
      [0, 0, 0, 0, 0, 0, 0, 1, 1, 1, 1, 1, 1, 0, 0, 0, 1, 1, 1, 1, 1, 0]
      (init raw_failing_cfg))
   = [Rec 0 0, Rec 0 0, Rec 0 0, Rec 1 0, Rec 1 0, Rec 1 0]"
  by (simp add: eval_run two_talking_partitions_simps render_one_message_raw block_items_def
      rec_tags_def raw_failing_cfg_simps)

lemma writers_hold_the_lock:
  assumes "places (run cfg w sched (init cfg)) p = Writing off k its"
  shows "mu (run cfg w sched (init cfg)) = Some p"
  using block_inv_run [of cfg w sched] assms
  unfolding block_inv_def lock_inv_def by blast

lemma one_writer_at_a_time:
  assumes "places (run cfg w sched (init cfg)) p = Writing off k its"
    and "places (run cfg w sched (init cfg)) q = Writing off' k' its'"
  shows "p = q"
  using writers_hold_the_lock [OF assms(1)] writers_hold_the_lock [OF assms(2)] by simp

text \<open>
  Claim C9. The writes of one record to the diagnostics stream and to the payload stream are
  made under one mutex, so that nothing of one record's block comes inside the block of
  another: in the sequence of items written for records, in every run and under every
  schedule of the workers, once an item of another record has followed an item of record
  \<open>a\<close>, no item of \<open>a\<close> comes again. (The line \<^verbatim>\<open>Starting on partition ...\<close> is written
  without the mutex and is not part of a record's block.)
\<close>

theorem record_blocks_not_interleaved:
  assumes "rec_tags (run cfg w sched (init cfg)) = pre @ a # mid @ b # post" and "a \<noteq> b"
  shows "a \<notin> set post"
proof -
  have "contiguous (rec_tags (run cfg w sched (init cfg)))"
    using block_inv_run [of cfg w sched] by (simp add: block_inv_def)
  with assms show ?thesis
    unfolding contiguous_def by blast
qed


theorem record_blocks_not_interleaved_witness:
  "rec_tags (run raw_failing_cfg two_talking_partitions
      [0, 0, 0, 0, 0, 0, 0, 1, 1, 1, 1, 1, 1, 0, 0, 0, 1, 1, 1, 1, 1, 0]
      (init raw_failing_cfg))
     = [] @ Rec 0 0 # [Rec 0 0, Rec 0 0] @ Rec 1 0 # [Rec 1 0, Rec 1 0] \<and>
   Rec 0 0 \<noteq> Rec 1 0 \<and> Rec 0 0 \<notin> set [Rec 1 0, Rec 1 0]"
proof -
  have t: "rec_tags (run raw_failing_cfg two_talking_partitions
      [0, 0, 0, 0, 0, 0, 0, 1, 1, 1, 1, 1, 1, 0, 0, 0, 1, 1, 1, 1, 1, 0]
      (init raw_failing_cfg))
     = [] @ Rec 0 0 # [Rec 0 0, Rec 0 0] @ Rec 1 0 # [Rec 1 0, Rec 1 0]"
    by (simp add: run_two_talking)
  have n: "Rec 0 0 \<noteq> Rec 1 0"
    by simp
  from record_blocks_not_interleaved [OF t n] t n show ?thesis
    by simp
qed

end
